theory Spec2Isabelle
  imports Complex_Main "HOL-Library.AList" "HOL-Library.Char_ord" "HOL-Library.List_Lexorder"
begin

section \<open>Data model of \<open>goenrich/enrich.py\<close>\<close>

text \<open>
  Identifiers of ontology terms and of annotated entries (genes, proteins) are strings.
  A Python \<open>set\<close> is a HOL set; \<open>len\<close> of it is \<open>card\<close>. A p-value is a rational
  number: the arithmetic of the code (\<open>p * n\<close>, \<open>q < 0.05\<close>) is modelled exactly, the
  rounding of the floating-point numbers is not.
\<close>

type_synonym term_id = string
type_synonym entry = string

text \<open>
  The attribute dictionary \<open>G.node[i]\<close> of one term. Every key the code reads or
  writes is a field; a key that is absent from the dictionary is \<open>None\<close>.
\<close>

record node =
  node_namespace :: "string option"
  node_background :: "entry set option"
  node_M :: "nat option"
  node_query :: "entry set option"
  node_n :: "nat option"
  node_N :: "nat option"
  node_hits :: "entry set option"
  node_x :: "nat option"
  node_p :: "rat option"
  node_q :: "rat option"
  node_significant :: "bool option"

text \<open>
  The graph \<open>G\<close> (a \<open>networkx.DiGraph\<close>): \<open>nodes\<close> is the dictionary \<open>G.node\<close> in its
  iteration order (\<open>for i in G\<close>), \<open>succs\<close> is the adjacency \<open>G[i]\<close> with the edges
  child \<open>\<rightarrow>\<close> parent, \<open>roots\<close> is \<open>G.graph['roots']\<close> (a namespace without an entry and a
  graph without the key \<open>'roots'\<close> both raise \<open>KeyError\<close>), \<open>mtc_method\<close> and \<open>mtc_alpha\<close>
  are the keys \<open>'multiple-testing-correction'\<close> and \<open>'alpha'\<close> of \<open>G.graph\<close>.
\<close>

record graph =
  nodes :: "(term_id \<times> node) list"
  succs :: "term_id \<Rightarrow> term_id list"
  roots :: "string \<rightharpoonup> term_id"
  mtc_method :: "string option"
  mtc_alpha :: "rat option"

datatype error = KeyError | ValueError string | NetworkXError

section \<open>The hypergeometric distribution\<close>

text \<open>
  \<open>scipy.stats.hypergeom\<close> is a library outside the repository. Its documented functions,
  on exact rationals, for a population of \<open>M\<close> objects of which \<open>n\<close> are successes and a
  sample of \<open>N\<close> objects (\<open>n \<le> M\<close>, \<open>N \<le> M\<close>): \<open>pmf k\<close> is the probability of exactly
  \<open>k\<close> successes in the sample, \<open>cdf k\<close> the probability of at most \<open>k\<close>, and the
  survival function is \<open>sf k = 1 - cdf k\<close>.
\<close>

definition hypergeom_pmf :: "nat \<Rightarrow> nat \<Rightarrow> nat \<Rightarrow> nat \<Rightarrow> rat" where
  "hypergeom_pmf k M n N =
     (if k \<le> N then of_nat ((n choose k) * ((M - n) choose (N - k))) / of_nat (M choose N)
      else 0)"

definition hypergeom_cdf :: "nat \<Rightarrow> nat \<Rightarrow> nat \<Rightarrow> nat \<Rightarrow> rat" where
  "hypergeom_cdf k M n N = (\<Sum>j\<leftarrow>[0..<Suc k]. hypergeom_pmf j M n N)"

definition hypergeom_sf :: "nat \<Rightarrow> nat \<Rightarrow> nat \<Rightarrow> nat \<Rightarrow> rat" where
  "hypergeom_sf k M n N = 1 - hypergeom_cdf k M n N"

text \<open>
  The quantity the specification asks for: the probability of \<open>x\<close> or more successes,
  that is, 1 minus the cumulative probability up to \<open>x - 1\<close>.
\<close>

definition spec_upper_tail :: "nat \<Rightarrow> nat \<Rightarrow> nat \<Rightarrow> nat \<Rightarrow> rat" where
  "spec_upper_tail x M n N = (if x = 0 then 1 else 1 - hypergeom_cdf (x - 1) M n N)"

section \<open>\<open>calculate_pvalues\<close>\<close>

text \<open>
  The inner loop \<open>for attr in ['query', 'n', 'N', 'hits', 'x', 'p', 'q', 'significant']:
  if attr in node: del node[attr]\<close>.
\<close>

definition reset_attrs :: "node \<Rightarrow> node" where
  "reset_attrs nd =
     nd\<lparr>node_query := None, node_n := None, node_N := None, node_hits := None,
        node_x := None, node_p := None, node_q := None, node_significant := None\<rparr>"

text \<open>
  What one iteration of \<open>for i in G\<close> does with its node: it leaves by \<open>continue\<close>
  (\<open>Skipped\<close>), writes a p-value (\<open>Retained\<close>), or raises (\<open>Raised\<close>: \<open>node['M']\<close> of a
  node without the key \<open>M\<close>).
\<close>

datatype outcome = Skipped | Retained rat | Raised error

text \<open>\<open>node.get('background', set([]))\<close>\<close>

definition get_background :: "node \<Rightarrow> entry set" where
  "get_background nd = (case node_background nd of None \<Rightarrow> {} | Some b \<Rightarrow> b)"

definition pvalue_node :: "entry set \<Rightarrow> int \<Rightarrow> int \<Rightarrow> int \<Rightarrow> node \<Rightarrow> node \<times> outcome" where
  "pvalue_node query_set min_hit_size min_category_size max_category_size nd0 =
     (let nd = reset_attrs nd0;
          background = get_background nd;
          n = card background
      in if max_category_size < int n \<and> int n < min_category_size then (nd, Skipped)
         else
           let nd = nd\<lparr>node_n := Some n\<rparr>;
               hits = query_set \<inter> background;
               x = card hits
           in if int x < min_hit_size then (nd, Skipped)
              else
                let nd = nd\<lparr>node_query := Some query_set, node_N := Some (card query_set),
                            node_hits := Some hits, node_x := Some x\<rparr>
                in case node_M nd of
                     None \<Rightarrow> (nd, Raised KeyError)
                   | Some M \<Rightarrow>
                       let p = hypergeom_sf x M n (card query_set)
                       in (nd\<lparr>node_p := Some p\<rparr>, Retained p))"

text \<open>
  The loop \<open>for i in G\<close>, with the dictionary \<open>pvalues\<close> as an association list in
  insertion order. An exception leaves the nodes not yet visited as they were.
\<close>

fun pvalues_loop ::
  "entry set \<Rightarrow> int \<Rightarrow> int \<Rightarrow> int \<Rightarrow> (term_id \<times> rat) list \<Rightarrow> (term_id \<times> node) list
     \<Rightarrow> (term_id \<times> node) list \<times> (error + (term_id \<times> rat) list)" where
  "pvalues_loop Q mh mn mx pvalues [] = ([], Inr pvalues)"
| "pvalues_loop Q mh mn mx pvalues ((i, nd) # rest) =
     (case pvalue_node Q mh mn mx nd of
        (nd', Raised e) \<Rightarrow> ((i, nd') # rest, Inl e)
      | (nd', Skipped) \<Rightarrow>
          (case pvalues_loop Q mh mn mx pvalues rest of
             (rest', r) \<Rightarrow> ((i, nd') # rest', r))
      | (nd', Retained p) \<Rightarrow>
          (case pvalues_loop Q mh mn mx (AList.update i p pvalues) rest of
             (rest', r) \<Rightarrow> ((i, nd') # rest', r)))"

definition calculate_pvalues ::
  "graph \<Rightarrow> entry list \<Rightarrow> int \<Rightarrow> int \<Rightarrow> int \<Rightarrow> graph \<times> (error + (term_id \<times> rat) list)" where
  "calculate_pvalues G query min_hit_size min_category_size max_category_size =
     (case pvalues_loop (set query) min_hit_size min_category_size max_category_size []
             (nodes G) of
        (nodes', r) \<Rightarrow> (G\<lparr>nodes := nodes'\<rparr>, r))"

text \<open>The defaults of the keyword parameters.\<close>

definition default_min_hit_size :: int where "default_min_hit_size = 2"
definition default_min_category_size :: int where "default_min_category_size = 3"
definition default_max_category_size :: int where "default_max_category_size = 500"
definition default_alpha :: rat where "default_alpha = 5 / 100"
definition default_method :: string where "default_method = ''benjamini-hochberg''"

section \<open>\<open>multiple_testing_correction\<close>\<close>

text \<open>
  \<open>node = G.node[term]; node['q'] = q; node['significant'] = s\<close>: a term that is not in
  the graph raises \<open>KeyError\<close>.
\<close>

definition set_q :: "(term_id \<times> node) list \<Rightarrow> term_id \<Rightarrow> rat \<Rightarrow> bool
    \<Rightarrow> error + (term_id \<times> node) list" where
  "set_q ns t q' s =
     (case map_of ns t of
        None \<Rightarrow> Inl KeyError
      | Some nd \<Rightarrow> Inr (AList.update t (nd\<lparr>node_q := Some q', node_significant := Some s\<rparr>) ns))"

text \<open>The loop of the \<open>bonferroni\<close> branch; \<open>k\<close> is \<open>len(pvalues.values())\<close>.\<close>

fun bonferroni_loop :: "nat \<Rightarrow> (term_id \<times> node) list \<Rightarrow> (term_id \<times> rat) list
    \<Rightarrow> (term_id \<times> node) list \<times> error option" where
  "bonferroni_loop k ns [] = (ns, None)"
| "bonferroni_loop k ns ((t, p') # ps) =
     (let q' = p' * of_nat k
      in case set_q ns t q' (q' < 5 / 100) of
           Inl e \<Rightarrow> (ns, Some e)
         | Inr ns' \<Rightarrow> bonferroni_loop k ns' ps)"

text \<open>
  The loop of the \<open>benjamini-hochberg\<close> branch over \<open>zip(terms, qs, rejs)\<close>, which stops
  at the shortest of the three.
\<close>

fun bh_loop :: "(term_id \<times> node) list \<Rightarrow> term_id list \<Rightarrow> rat list \<Rightarrow> bool list
    \<Rightarrow> (term_id \<times> node) list \<times> error option" where
  "bh_loop ns (t # ts) (q' # qs) (r # rs) =
     (case set_q ns t q' r of
        Inl e \<Rightarrow> (ns, Some e)
      | Inr ns' \<Rightarrow> bh_loop ns' ts qs rs)"
| "bh_loop ns _ _ _ = (ns, None)"

text \<open>
  \<open>statsmodels.stats.multitest.fdrcorrection\<close> is a library outside the repository; it
  is the parameter \<open>fdrcorrection\<close>, from the p-values and \<open>alpha\<close> to the rejections
  and the corrected p-values. \<open>terms, ps = zip(*pvalues.items())\<close> raises \<open>ValueError\<close>
  on an empty dictionary: \<open>zip()\<close> is empty and cannot be unpacked into two names.
\<close>

definition multiple_testing_correction ::
  "(rat list \<Rightarrow> rat \<Rightarrow> bool list \<times> rat list) \<Rightarrow> graph \<Rightarrow> (term_id \<times> rat) list \<Rightarrow> rat
     \<Rightarrow> string \<Rightarrow> graph \<times> error option" where
  "multiple_testing_correction fdrcorrection G0 pvalues alpha method =
     (let G = G0\<lparr>mtc_method := Some method, mtc_alpha := Some alpha\<rparr>
      in if method = ''bonferroni'' then
           (case bonferroni_loop (length pvalues) (nodes G) pvalues of
              (ns, e) \<Rightarrow> (G\<lparr>nodes := ns\<rparr>, e))
         else if method = ''benjamini-hochberg'' then
           (if pvalues = [] then (G, Some (ValueError ''not enough values to unpack''))
            else
              case fdrcorrection (map snd pvalues) alpha of
                (rejs, qs) \<Rightarrow>
                  (case bh_loop (nodes G) (map fst pvalues) qs rejs of
                     (ns, e) \<Rightarrow> (G\<lparr>nodes := ns\<rparr>, e)))
         else (G, Some (ValueError method)))"

section \<open>\<open>set_background\<close>\<close>

text \<open>
  The background table \<open>df\<close>, reduced to its two columns: one row is the pair of the
  entry (column \<open>entry_id\<close>) and of the category (column \<open>category_id\<close>).
  \<open>df.groupby(category_id)[entry_id]\<close> yields the categories in ascending order, each
  with the entries of its rows.
\<close>

definition groupby :: "(entry \<times> term_id) list \<Rightarrow> (term_id \<times> entry list) list" where
  "groupby df =
     map (\<lambda>c. (c, map fst (filter (\<lambda>row. snd row = c) df))) (sort (remdups (map snd df)))"

text \<open>
  \<open>networkx.all_simple_paths\<close> is a library outside the repository. The model follows
  the generator of the releases that have the attribute \<open>G.node\<close> this code reads: a
  depth-first search from \<open>source\<close> that keeps the list \<open>visited\<close>, yields
  \<open>visited + [target]\<close> when it meets the target, does not enter a node it has
  visited, and stops at \<open>cutoff = len(G) - 1\<close> visited nodes. The argument \<open>d\<close> is
  \<open>cutoff - len(visited)\<close>; \<open>cs\<close> is what is left of the iterator over the successors
  of the last visited node.
\<close>

fun simple_paths_dfs ::
  "(term_id \<Rightarrow> term_id list) \<Rightarrow> term_id \<Rightarrow> nat \<Rightarrow> term_id list \<Rightarrow> term_id list
     \<Rightarrow> term_id list list" where
  "simple_paths_dfs sc target d visited [] = []"
| "simple_paths_dfs sc target 0 visited (child # cs) =
     (if child = target \<or> target \<in> set cs then [visited @ [target]] else [])"
| "simple_paths_dfs sc target (Suc d) visited (child # cs) =
     (if child = target then [visited @ [target]]
      else if child \<notin> set visited then simple_paths_dfs sc target d (visited @ [child]) (sc child)
      else [])
     @ simple_paths_dfs sc target (Suc d) visited cs"

definition all_simple_paths :: "graph \<Rightarrow> term_id \<Rightarrow> term_id \<Rightarrow> error + term_id list list" where
  "all_simple_paths G source target =
     (if map_of (nodes G) source = None then Inl NetworkXError
      else if map_of (nodes G) target = None then Inl NetworkXError
      else
        let cutoff = length (nodes G) - 1
        in if cutoff < 1 then Inr []
           else Inr (simple_paths_dfs (succs G) target (cutoff - 1) [source] (succs G source)))"

text \<open>\<open>node = G.node[n]; node['background'] = node['background'].union(entries)\<close>\<close>

definition add_background ::
  "entry set \<Rightarrow> (term_id \<times> node) list \<Rightarrow> term_id \<Rightarrow> error + (term_id \<times> node) list" where
  "add_background entries ns n =
     (case map_of ns n of
        None \<Rightarrow> Inl KeyError
      | Some nd \<Rightarrow>
          (case node_background nd of
             None \<Rightarrow> Inl KeyError
           | Some b \<Rightarrow> Inr (AList.update n (nd\<lparr>node_background := Some (b \<union> entries)\<rparr>) ns)))"

text \<open>\<open>for n in path\<close> and, around it, \<open>for path in all_simple_paths(...)\<close>.\<close>

fun add_path ::
  "entry set \<Rightarrow> (term_id \<times> node) list \<Rightarrow> term_id list \<Rightarrow> (term_id \<times> node) list \<times> error option"
  where
  "add_path entries ns [] = (ns, None)"
| "add_path entries ns (n # path) =
     (case add_background entries ns n of
        Inl e \<Rightarrow> (ns, Some e)
      | Inr ns' \<Rightarrow> add_path entries ns' path)"

fun add_paths ::
  "entry set \<Rightarrow> (term_id \<times> node) list \<Rightarrow> term_id list list
     \<Rightarrow> (term_id \<times> node) list \<times> error option" where
  "add_paths entries ns [] = (ns, None)"
| "add_paths entries ns (path # paths) =
     (case add_path entries ns path of
        (ns', Some e) \<Rightarrow> (ns', Some e)
      | (ns', None) \<Rightarrow> add_paths entries ns' paths)"

text \<open>
  \<open>namespace = G.node[term]['namespace']; root = G.graph['roots'][namespace]\<close>: each of
  the three lookups raises \<open>KeyError\<close> when its key is missing.
\<close>

definition root_of :: "graph \<Rightarrow> term_id \<Rightarrow> error + term_id" where
  "root_of G term =
     (case map_of (nodes G) term of
        None \<Rightarrow> Inl KeyError
      | Some nd \<Rightarrow>
          (case node_namespace nd of
             None \<Rightarrow> Inl KeyError
           | Some namespace \<Rightarrow>
               (case roots G namespace of
                  None \<Rightarrow> Inl KeyError
                | Some root_id \<Rightarrow> Inr root_id)))"

text \<open>The body of \<open>for term, entries in grouped\<close>.\<close>

definition propagate_term :: "graph \<Rightarrow> term_id \<times> entry list \<Rightarrow> graph \<times> error option" where
  "propagate_term G grp =
     (case grp of (term, entries) \<Rightarrow>
        (case root_of G term of
           Inl e \<Rightarrow> (G, Some e)
         | Inr root_id \<Rightarrow>
             (case all_simple_paths G term root_id of
                Inl e \<Rightarrow> (G, Some e)
              | Inr paths \<Rightarrow>
                  (case add_paths (set entries) (nodes G) paths of
                     (ns, e) \<Rightarrow> (G\<lparr>nodes := ns\<rparr>, e)))))"

fun propagate :: "graph \<Rightarrow> (term_id \<times> entry list) list \<Rightarrow> graph \<times> error option" where
  "propagate G [] = (G, None)"
| "propagate G (grp # grouped) =
     (case propagate_term G grp of
        (G', Some e) \<Rightarrow> (G', Some e)
      | (G', None) \<Rightarrow> propagate G' grouped)"

text \<open>
  The first loop, \<open>node['background'] = set([]); node['M'] = M\<close> for every node.
\<close>

definition clean_background :: "nat \<Rightarrow> (term_id \<times> node) list \<Rightarrow> (term_id \<times> node) list" where
  "clean_background M ns =
     map (\<lambda>(i, nd). (i, nd\<lparr>node_background := Some {}, node_M := Some M\<rparr>)) ns"

definition set_background :: "graph \<Rightarrow> (entry \<times> term_id) list \<Rightarrow> graph \<times> error option" where
  "set_background G df =
     (let M = card (set (map fst df))
      in propagate (G\<lparr>nodes := clean_background M (nodes G)\<rparr>) (groupby df))"

section \<open>Walks, roots and backgrounds of a graph\<close>

text \<open>
  The vocabulary of the properties of \<open>set_background\<close>. A walk follows the edges;
  \<open>reaches sc k a b\<close> holds when \<open>b\<close> is \<open>a\<close> or is at most \<open>k\<close> edges away from it;
  \<open>background_at ns t\<close> is \<open>ns[t]['background']\<close> where it exists.
\<close>

fun walk :: "(term_id \<Rightarrow> term_id list) \<Rightarrow> term_id list \<Rightarrow> bool" where
  "walk sc (a # b # p) = (b \<in> set (sc a) \<and> walk sc (b # p))"
| "walk sc p = True"

fun reaches :: "(term_id \<Rightarrow> term_id list) \<Rightarrow> nat \<Rightarrow> term_id \<Rightarrow> term_id \<Rightarrow> bool" where
  "reaches sc 0 a b = (a = b)"
| "reaches sc (Suc k) a b = (a = b \<or> (\<exists>c \<in> set (sc a). reaches sc k c b))"

definition background_at :: "(term_id \<times> node) list \<Rightarrow> term_id \<Rightarrow> entry set option" where
  "background_at ns t = (case map_of ns t of None \<Rightarrow> None | Some nd \<Rightarrow> node_background nd)"

text \<open>
  The paths that the body of the loop walks for one category, and whether a term lies on
  one of them.
\<close>

definition term_paths :: "graph \<Rightarrow> term_id \<Rightarrow> error + term_id list list" where
  "term_paths G term =
     (case root_of G term of Inl e \<Rightarrow> Inl e | Inr root_id \<Rightarrow> all_simple_paths G term root_id)"

definition on_path :: "graph \<Rightarrow> term_id \<Rightarrow> term_id \<Rightarrow> bool" where
  "on_path G c v = (case term_paths G c of Inl e \<Rightarrow> False | Inr ps \<Rightarrow> v \<in> \<Union> (set ` set ps))"

text \<open>
  What a \<open>networkx.DiGraph\<close> guarantees: the keys of \<open>G.node\<close> are distinct, and every
  edge ends on a node of the graph.
\<close>

definition digraph :: "graph \<Rightarrow> bool" where
  "digraph G =
     (distinct (map fst (nodes G))
      \<and> (\<forall>t \<in> set (map fst (nodes G)). set (succs G t) \<subseteq> set (map fst (nodes G))))"

text \<open>
  The graph is acyclic: some ranking of the terms falls along every edge. Every term
  reaches the root of its namespace. The two ends of an edge have the same namespace
  root.
\<close>

definition dag :: "graph \<Rightarrow> (term_id \<Rightarrow> nat) \<Rightarrow> bool" where
  "dag G rank = (\<forall>t \<in> set (map fst (nodes G)). \<forall>u \<in> set (succs G t). rank u < rank t)"

definition rooted :: "graph \<Rightarrow> bool" where
  "rooted G =
     (\<forall>t \<in> set (map fst (nodes G)).
        \<exists>r. root_of G t = Inr r \<and> reaches (succs G) (length (nodes G)) t r)"

definition edges_keep_root :: "graph \<Rightarrow> bool" where
  "edges_keep_root G =
     (\<forall>t \<in> set (map fst (nodes G)). \<forall>u \<in> set (succs G t). root_of G u = root_of G t)"

section \<open>Small graphs\<close>

text \<open>
  A node as the ontology reader leaves it (only its namespace), a node after
  \<open>set_background\<close>, and a graph of one term \<open>t\<close> that is the root of its namespace.
\<close>

definition new_node :: "string \<Rightarrow> node" where
  "new_node namespace =
     \<lparr>node_namespace = Some namespace, node_background = None, node_M = None,
      node_query = None, node_n = None, node_N = None, node_hits = None, node_x = None,
      node_p = None, node_q = None, node_significant = None\<rparr>"

definition annotated_node :: "string \<Rightarrow> entry set \<Rightarrow> nat \<Rightarrow> node" where
  "annotated_node namespace b M =
     (new_node namespace)\<lparr>node_background := Some b, node_M := Some M\<rparr>"

definition single_graph :: "node \<Rightarrow> graph" where
  "single_graph nd =
     \<lparr>nodes = [(''t'', nd)], succs = (\<lambda>i. []), roots = [''A'' \<mapsto> ''t''],
      mtc_method = None, mtc_alpha = None\<rparr>"

text \<open>
  A node that still carries the results of an earlier query and correction, and the same
  node after a new query with the entries \<open>a\<close> and \<open>b\<close>.
\<close>

definition stale_node :: node where
  "stale_node =
     (annotated_node ''A'' {''a'', ''b''} 3)
       \<lparr>node_n := Some 7, node_p := Some 1, node_q := Some 1, node_significant := Some False\<rparr>"

definition queried_node :: node where
  "queried_node =
     (annotated_node ''A'' {''a'', ''b''} 3)
       \<lparr>node_query := Some {''a'', ''b''}, node_n := Some 2, node_N := Some 2,
        node_hits := Some {''a'', ''b''}, node_x := Some 2, node_p := Some 0\<rparr>"

text \<open>
  A diamond: the term \<open>leaf\<close> has the parents \<open>left\<close> and \<open>right\<close>, which both have
  the parent \<open>top\<close>, the root of the namespace; one entry is annotated to each of
  \<open>leaf\<close>, \<open>left\<close> and \<open>right\<close>.
\<close>

definition diamond_graph :: graph where
  "diamond_graph =
     \<lparr>nodes = [(''leaf'', new_node ''A''), (''left'', new_node ''A''),
               (''right'', new_node ''A''), (''top'', new_node ''A'')],
      succs = (\<lambda>i. if i = ''leaf'' then [''left'', ''right'']
                    else if i = ''left'' \<or> i = ''right'' then [''top''] else []),
      roots = [''A'' \<mapsto> ''top''], mtc_method = None, mtc_alpha = None\<rparr>"

definition diamond_table :: "(entry \<times> term_id) list" where
  "diamond_table = [(''e1'', ''leaf''), (''e2'', ''left''), (''e3'', ''right'')]"

definition diamond_rank :: "term_id \<Rightarrow> nat" where
  "diamond_rank i = (if i = ''leaf'' then 2 else if i = ''top'' then 0 else 1)"

text \<open>
  The table of the diamond with one more row, an entry annotated to the root \<open>top\<close>
  itself; and the diamond as an earlier call of \<open>set_background\<close> with another table
  could have left it, every node with a background and an \<open>M\<close>.
\<close>

definition diamond_root_table :: "(entry \<times> term_id) list" where
  "diamond_root_table = diamond_table @ [(''e4'', ''top'')]"

definition used_diamond_graph :: graph where
  "used_diamond_graph =
     diamond_graph
       \<lparr>nodes := map (\<lambda>(i, nd). (i, nd\<lparr>node_background := Some {''old''}, node_M := Some 9\<rparr>))
                  (nodes diamond_graph)\<rparr>"

text \<open>A term \<open>c\<close> and the root \<open>r\<close> of its namespace, with no edge between them.\<close>

definition apart_graph :: graph where
  "apart_graph =
     \<lparr>nodes = [(''c'', new_node ''A''), (''r'', new_node ''A'')],
      succs = (\<lambda>i. []), roots = [''A'' \<mapsto> ''r''], mtc_method = None, mtc_alpha = None\<rparr>"

section \<open>Properties of \<open>calculate_pvalues\<close>\<close>

lemmas small_graph_defs =
  single_graph_def annotated_node_def new_node_def
  default_min_hit_size_def default_min_category_size_def default_max_category_size_def
  default_alpha_def default_method_def

lemmas pvalue_defs = calculate_pvalues_def pvalue_node_def reset_attrs_def get_background_def

text \<open>
  C1. The claim: a term whose category size \<open>n\<close> is outside the window
  \<open>min_category_size \<le> n \<le> max_category_size\<close> is skipped, it gets no result field
  and no entry in the p-value map. The code tests \<open>max_category_size < n <
  min_category_size\<close>, which no \<open>n\<close> satisfies for the default window 3 to 500: a term
  with one annotated entry, queried with that entry and \<open>min_hit_size = 1\<close>, gets the
  field \<open>n = 1\<close> and an entry in the p-value map; with the default \<open>min_hit_size\<close> it
  still gets the field \<open>n = 1\<close>.
\<close>

theorem size_window_not_applied:
  "snd (calculate_pvalues (single_graph (annotated_node ''A'' {''a''} 2)) [''a''] 1
          default_min_category_size default_max_category_size)
     = Inr [(''t'', 0)]
   \<and> map (\<lambda>(i, nd). (i, node_n nd))
         (nodes (fst (calculate_pvalues (single_graph (annotated_node ''A'' {''a''} 2)) [''a''] 1
            default_min_category_size default_max_category_size)))
     = [(''t'', Some 1)]
   \<and> map (\<lambda>(i, nd). (i, node_n nd))
         (nodes (fst (calculate_pvalues (single_graph (annotated_node ''A'' {''a''} 2)) [''a'']
            default_min_hit_size default_min_category_size default_max_category_size)))
     = [(''t'', Some 1)]"
  by (simp add: pvalue_defs small_graph_defs hypergeom_sf_def hypergeom_cdf_def
      hypergeom_pmf_def Let_def)

lemma hypergeom_cdf_Suc:
  "hypergeom_cdf (Suc k) M n N = hypergeom_cdf k M n N + hypergeom_pmf (Suc k) M n N"
  by (simp add: hypergeom_cdf_def)

text \<open>
  The two conventions differ by one support point: the probability of \<open>x\<close> or more
  successes is the survival function at \<open>x\<close> plus the probability of exactly \<open>x\<close>.
\<close>

lemma upper_tail_is_sf_plus_pmf:
  "0 < x \<Longrightarrow> spec_upper_tail x M n N = hypergeom_sf x M n N + hypergeom_pmf x M n N"
  by (cases x) (simp_all add: spec_upper_tail_def hypergeom_sf_def hypergeom_cdf_Suc)

text \<open>
  C2. The claim: the recorded p-value is the probability of \<open>x\<close> or more successes,
  1 minus the cumulative probability up to \<open>x - 1\<close>. The code records
  \<open>hypergeom.sf(x, M, n, N)\<close>, 1 minus the cumulative probability up to \<open>x\<close>: for a
  population of 3 entries, a category of 2 of them and a query of these 2 entries the
  recorded p-value is 0, the probability of 2 or more successes is 1/3.
\<close>

theorem pvalue_excludes_observed_count:
  "snd (calculate_pvalues (single_graph (annotated_node ''A'' {''a'', ''b''} 3)) [''a'', ''b'']
          default_min_hit_size default_min_category_size default_max_category_size)
     = Inr [(''t'', 0)]
   \<and> spec_upper_tail 2 3 2 2 = 1 / 3"
proof (rule conjI)
  have "hypergeom_sf (Suc (Suc 0)) 3 (Suc (Suc 0)) (Suc (Suc 0)) = 0"
    by code_simp
  then show "snd (calculate_pvalues (single_graph (annotated_node ''A'' {''a'', ''b''} 3))
      [''a'', ''b''] default_min_hit_size default_min_category_size default_max_category_size)
     = Inr [(''t'', 0)]"
    by (simp add: pvalue_defs small_graph_defs Let_def)
  show "spec_upper_tail 2 3 2 2 = 1 / 3"
    by code_simp
qed

subsection \<open>One node, and the loop over the nodes\<close>

lemma pvalue_node_keeps:
  "node_background (fst (pvalue_node Q mh mn mx nd)) = node_background nd"
  "get_background (fst (pvalue_node Q mh mn mx nd)) = get_background nd"
  "node_q (fst (pvalue_node Q mh mn mx nd)) = None"
  "node_significant (fst (pvalue_node Q mh mn mx nd)) = None"
  by (simp_all add: pvalue_node_def reset_attrs_def get_background_def Let_def split: option.split)

lemma pvalue_node_n:
  "node_n (fst (pvalue_node Q mh mn mx nd)) = None
   \<or> node_n (fst (pvalue_node Q mh mn mx nd)) = Some (card (get_background nd))"
  by (simp add: pvalue_node_def reset_attrs_def get_background_def Let_def split: option.split)

lemma pvalue_node_Retained:
  assumes "snd (pvalue_node Q mh mn mx nd) = Retained p'"
  shows "mh \<le> int (card (Q \<inter> get_background nd))"
    and "node_query (fst (pvalue_node Q mh mn mx nd)) = Some Q"
    and "node_N (fst (pvalue_node Q mh mn mx nd)) = Some (card Q)"
    and "node_hits (fst (pvalue_node Q mh mn mx nd)) = Some (Q \<inter> get_background nd)"
    and "node_x (fst (pvalue_node Q mh mn mx nd)) = Some (card (Q \<inter> get_background nd))"
    and "node_p (fst (pvalue_node Q mh mn mx nd)) = Some p'"
    and "node_n (fst (pvalue_node Q mh mn mx nd)) = Some (card (get_background nd))"
  using assms
  by (simp_all add: pvalue_node_def reset_attrs_def get_background_def Let_def
      split: option.splits if_splits)

lemma pvalue_node_Skipped:
  assumes "snd (pvalue_node Q mh mn mx nd) = Skipped"
  shows "node_query (fst (pvalue_node Q mh mn mx nd)) = None"
    and "node_N (fst (pvalue_node Q mh mn mx nd)) = None"
    and "node_hits (fst (pvalue_node Q mh mn mx nd)) = None"
    and "node_x (fst (pvalue_node Q mh mn mx nd)) = None"
    and "node_p (fst (pvalue_node Q mh mn mx nd)) = None"
  using assms
  by (simp_all add: pvalue_node_def reset_attrs_def get_background_def Let_def
      split: option.splits if_splits)

lemma pvalue_node_missing_background:
  assumes "1 \<le> mh" and "node_background nd = None"
  shows "snd (pvalue_node Q mh mn mx nd) = Skipped"
    and "node_n (fst (pvalue_node Q mh mn mx nd)) = (if mx < 0 \<and> 0 < mn then None else Some 0)"
  using assms
  by (simp_all add: pvalue_node_def reset_attrs_def get_background_def Let_def)

lemma pvalues_loop_nodes:
  "pvalues_loop Q mh mn mx pv ns = (ns', Inr pv') \<Longrightarrow>
   ns' = map (\<lambda>(i, nd). (i, fst (pvalue_node Q mh mn mx nd))) ns"
proof (induction ns arbitrary: pv ns')
  case Nil
  then show ?case by simp
next
  case (Cons a ns)
  obtain i nd where a: "a = (i, nd)" by (cases a)
  obtain nd1 oc where pn: "pvalue_node Q mh mn mx nd = (nd1, oc)" by (cases "pvalue_node Q mh mn mx nd")
  show ?case
  proof (cases oc)
    case Skipped
    with Cons.prems a pn obtain rest' where
      "pvalues_loop Q mh mn mx pv ns = (rest', Inr pv')" "ns' = (i, nd1) # rest'"
      by (auto split: prod.splits)
    with Cons.IH a pn show ?thesis by simp
  next
    case (Retained p')
    with Cons.prems a pn obtain rest' where
      "pvalues_loop Q mh mn mx (AList.update i p' pv) ns = (rest', Inr pv')" "ns' = (i, nd1) # rest'"
      by (auto split: prod.splits)
    with Cons.IH a pn show ?thesis by simp
  next
    case (Raised e)
    with Cons.prems a pn show ?thesis by simp
  qed
qed

lemma pvalues_loop_no_raise:
  "pvalues_loop Q mh mn mx pv ns = (ns', Inr pv') \<Longrightarrow> (i, nd) \<in> set ns \<Longrightarrow>
   snd (pvalue_node Q mh mn mx nd) \<noteq> Raised e"
proof (induction ns arbitrary: pv ns')
  case Nil
  then show ?case by simp
next
  case (Cons a ns)
  obtain j nd0 where a: "a = (j, nd0)" by (cases a)
  obtain nd1 oc where pn: "pvalue_node Q mh mn mx nd0 = (nd1, oc)"
    by (cases "pvalue_node Q mh mn mx nd0")
  show ?case
  proof (cases oc)
    case Skipped
    with Cons.prems a pn obtain rest' where
      "pvalues_loop Q mh mn mx pv ns = (rest', Inr pv')"
      by (auto split: prod.splits)
    from Cons.IH [OF this] Cons.prems(2) a pn Skipped show ?thesis
      by auto
  next
    case (Retained p')
    with Cons.prems a pn obtain rest' where
      "pvalues_loop Q mh mn mx (AList.update j p' pv) ns = (rest', Inr pv')"
      by (auto split: prod.splits)
    from Cons.IH [OF this] Cons.prems(2) a pn Retained show ?thesis
      by auto
  next
    case (Raised e')
    with Cons.prems a pn show ?thesis by simp
  qed
qed

lemma pvalues_loop_map:
  "pvalues_loop Q mh mn mx pv ns = (ns', Inr pv') \<Longrightarrow> distinct (map fst ns) \<Longrightarrow>
   map_of pv' i =
     (case map_of ns i of
        None \<Rightarrow> map_of pv i
      | Some nd \<Rightarrow>
          (case snd (pvalue_node Q mh mn mx nd) of
             Retained p' \<Rightarrow> Some p'
           | _ \<Rightarrow> map_of pv i))"
proof (induction ns arbitrary: pv ns')
  case Nil
  then show ?case by simp
next
  case (Cons a ns)
  obtain j nd where a: "a = (j, nd)" by (cases a)
  obtain nd1 oc where pn: "pvalue_node Q mh mn mx nd = (nd1, oc)" by (cases "pvalue_node Q mh mn mx nd")
  from Cons.prems a have d: "distinct (map fst ns)" and j: "map_of ns j = None"
    by (auto simp: map_of_eq_None_iff)
  show ?case
  proof (cases oc)
    case Skipped
    with Cons.prems a pn obtain rest' where
      "pvalues_loop Q mh mn mx pv ns = (rest', Inr pv')"
      by (auto split: prod.splits)
    from Cons.IH [OF this d] a pn Skipped j show ?thesis
      by (auto split: option.splits outcome.splits)
  next
    case (Retained p')
    with Cons.prems a pn obtain rest' where
      "pvalues_loop Q mh mn mx (AList.update j p' pv) ns = (rest', Inr pv')"
      by (auto split: prod.splits)
    from Cons.IH [OF this d] a pn Retained j show ?thesis
      by (auto simp: update_conv' split: option.splits outcome.splits)
  next
    case (Raised e)
    with Cons.prems a pn show ?thesis by simp
  qed
qed

text \<open>
  C6, as the code has it. After a call of \<open>calculate_pvalues\<close> that returns, no term
  has \<open>q\<close> or \<open>significant\<close>; a term that is not in the returned p-value map has none of
  \<open>query\<close>, \<open>N\<close>, \<open>hits\<close>, \<open>x\<close>, \<open>p\<close>; a term in the map passed the test on
  \<open>min_hit_size\<close>, and its fields are the values of this query. The field \<open>n\<close> is
  written before the test on \<open>min_hit_size\<close>: where it exists it is the size of the
  background, also on a term that is not in the map. Nothing of an earlier query is left.
\<close>

theorem ephemeral_fields_after_query:
  assumes "calculate_pvalues G query mh mn mx = (G', Inr pvalues)"
    and "distinct (map fst (nodes G))"
    and "(i, nd') \<in> set (nodes G')"
  shows "node_q nd' = None \<and> node_significant nd' = None
    \<and> (node_n nd' = None \<or> node_n nd' = Some (card (get_background nd')))
    \<and> (case map_of pvalues i of
          None \<Rightarrow>
            node_query nd' = None \<and> node_N nd' = None \<and> node_hits nd' = None
            \<and> node_x nd' = None \<and> node_p nd' = None
        | Some p' \<Rightarrow>
            mh \<le> int (card (set query \<inter> get_background nd'))
            \<and> node_query nd' = Some (set query) \<and> node_N nd' = Some (card (set query))
            \<and> node_hits nd' = Some (set query \<inter> get_background nd')
            \<and> node_x nd' = Some (card (set query \<inter> get_background nd'))
            \<and> node_n nd' = Some (card (get_background nd'))
            \<and> node_p nd' = Some p')"
proof -
  let ?Q = "set query"
  from assms(1) obtain ns' where
    loop: "pvalues_loop ?Q mh mn mx [] (nodes G) = (ns', Inr pvalues)" and G': "G' = G\<lparr>nodes := ns'\<rparr>"
    by (auto simp: calculate_pvalues_def split: prod.splits)
  from pvalues_loop_nodes [OF loop] G' assms(3) obtain nd where
    nd: "(i, nd) \<in> set (nodes G)" and nd': "nd' = fst (pvalue_node ?Q mh mn mx nd)"
    by auto
  from nd assms(2) have m: "map_of (nodes G) i = Some nd"
    by simp
  have bg: "get_background nd' = get_background nd"
    by (simp add: nd' pvalue_node_keeps)
  have raised: "snd (pvalue_node ?Q mh mn mx nd) \<noteq> Raised e" for e
    using pvalues_loop_no_raise [OF loop nd] by simp
  have pv: "map_of pvalues i =
      (case snd (pvalue_node ?Q mh mn mx nd) of Retained p' \<Rightarrow> Some p' | _ \<Rightarrow> None)"
    using pvalues_loop_map [OF loop assms(2), of i] m by (simp split: outcome.split)
  have 1: "node_q nd' = None \<and> node_significant nd' = None"
    by (simp add: nd' pvalue_node_keeps)
  have 2: "node_n nd' = None \<or> node_n nd' = Some (card (get_background nd'))"
    unfolding bg unfolding nd' by (rule pvalue_node_n)
  have 3: "(case map_of pvalues i of
          None \<Rightarrow>
            node_query nd' = None \<and> node_N nd' = None \<and> node_hits nd' = None
            \<and> node_x nd' = None \<and> node_p nd' = None
        | Some p' \<Rightarrow>
            mh \<le> int (card (set query \<inter> get_background nd'))
            \<and> node_query nd' = Some (set query) \<and> node_N nd' = Some (card (set query))
            \<and> node_hits nd' = Some (set query \<inter> get_background nd')
            \<and> node_x nd' = Some (card (set query \<inter> get_background nd'))
            \<and> node_n nd' = Some (card (get_background nd'))
            \<and> node_p nd' = Some p')"
  proof (cases "snd (pvalue_node ?Q mh mn mx nd)")
    case Skipped
    with pv pvalue_node_Skipped [OF Skipped] show ?thesis
      by (simp add: nd')
  next
    case (Retained p')
    with pv pvalue_node_Retained [OF Retained] show ?thesis
      by (simp add: nd' pvalue_node_keeps)
  next
    case (Raised e)
    with raised [of e] show ?thesis by simp
  qed
  from 1 2 3 show ?thesis by blast
qed

theorem ephemeral_fields_after_query_witness:
  "calculate_pvalues (single_graph stale_node) [''a'', ''b''] default_min_hit_size
       default_min_category_size default_max_category_size
     = (single_graph queried_node, Inr [(''t'', 0)])
   \<and> distinct (map fst (nodes (single_graph stale_node)))
   \<and> (''t'', queried_node) \<in> set (nodes (single_graph queried_node))
   \<and> node_q queried_node = None \<and> node_significant queried_node = None
   \<and> node_n queried_node = Some (card (get_background queried_node))
   \<and> node_p queried_node = Some 0"
proof -
  have sf: "hypergeom_sf (Suc (Suc 0)) 3 (Suc (Suc 0)) (Suc (Suc 0)) = 0"
    by code_simp
  have 1: "calculate_pvalues (single_graph stale_node) [''a'', ''b''] default_min_hit_size
       default_min_category_size default_max_category_size
     = (single_graph queried_node, Inr [(''t'', 0)])"
    by (simp add: pvalue_defs small_graph_defs stale_node_def queried_node_def sf Let_def)
  have 2: "distinct (map fst (nodes (single_graph stale_node)))"
    by (simp add: single_graph_def)
  have 3: "(''t'', queried_node) \<in> set (nodes (single_graph queried_node))"
    by (simp add: single_graph_def)
  from ephemeral_fields_after_query [OF 1 2 3] 1 2 3 show ?thesis
    by (simp add: queried_node_def annotated_node_def new_node_def get_background_def)
qed

text \<open>
  C6, as the claim has it, fails for the field \<open>n\<close>: with the default thresholds, a term
  with three annotated entries of which the query has one is not retained (one hit is
  fewer than \<open>min_hit_size = 2\<close>), and it has the field \<open>n = 3\<close> after the call.
\<close>

theorem n_written_on_filtered_term:
  "snd (calculate_pvalues (single_graph (annotated_node ''A'' {''a'', ''b'', ''c''} 3)) [''a'']
          default_min_hit_size default_min_category_size default_max_category_size)
     = Inr []
   \<and> map (\<lambda>(i, nd). (i, node_n nd))
         (nodes (fst (calculate_pvalues
            (single_graph (annotated_node ''A'' {''a'', ''b'', ''c''} 3)) [''a'']
            default_min_hit_size default_min_category_size default_max_category_size)))
     = [(''t'', Some 3)]"
  by (simp add: pvalue_defs small_graph_defs Let_def)

text \<open>
  C7, as the code has it. A term whose node has no background is treated as a category
  of size 0 with 0 hits, and the thresholds decide. Whenever \<open>min_hit_size\<close> is at least
  1, for every query and every size window, the term leaves the loop by \<open>continue\<close>,
  without an error, and it is not in the returned p-value map. Whenever the thresholds
  admit an empty category (\<open>min_hit_size \<le> 0\<close> and \<open>min_category_size \<le> 0 \<le>
  max_category_size\<close>) the term is not skipped. Nothing is said of the thresholds in
  between, where the test of the size window decides.
\<close>

theorem missing_background_is_filtered:
  assumes "distinct (map fst (nodes G))"
    and "(i, nd) \<in> set (nodes G)"
    and "node_background nd = None"
  shows "(node_n (fst (pvalue_node (set query) mh mn mx nd)) = None
        \<or> node_n (fst (pvalue_node (set query) mh mn mx nd)) = Some 0)
    \<and> (1 \<le> mh \<longrightarrow>
          snd (pvalue_node (set query) mh mn mx nd) = Skipped
          \<and> (case snd (calculate_pvalues G query mh mn mx) of
                Inr pvalues \<Rightarrow> map_of pvalues i = None
              | Inl e \<Rightarrow> True))
    \<and> (mh \<le> 0 \<and> mn \<le> 0 \<and> 0 \<le> mx \<longrightarrow>
          snd (pvalue_node (set query) mh mn mx nd) \<noteq> Skipped)"
proof (intro conjI impI)
  have "get_background nd = {}"
    using assms(3) by (simp add: get_background_def)
  with pvalue_node_n [of "set query" mh mn mx nd]
  show "node_n (fst (pvalue_node (set query) mh mn mx nd)) = None
        \<or> node_n (fst (pvalue_node (set query) mh mn mx nd)) = Some 0"
    by simp
next
  assume mh: "1 \<le> mh"
  then show s: "snd (pvalue_node (set query) mh mn mx nd) = Skipped"
    using assms(3) by (rule pvalue_node_missing_background)
  have "map_of pvalues i = None"
    if r: "snd (calculate_pvalues G query mh mn mx) = Inr pvalues" for pvalues
  proof -
    from r obtain ns' where
      loop: "pvalues_loop (set query) mh mn mx [] (nodes G) = (ns', Inr pvalues)"
      by (auto simp: calculate_pvalues_def split: prod.splits)
    from assms(1,2) have "map_of (nodes G) i = Some nd" by simp
    with pvalues_loop_map [OF loop assms(1), of i] s show ?thesis by simp
  qed
  then show "case snd (calculate_pvalues G query mh mn mx) of
          Inr pvalues \<Rightarrow> map_of pvalues i = None
        | Inl e \<Rightarrow> True"
    by (simp split: sum.split)
next
  assume "mh \<le> 0 \<and> mn \<le> 0 \<and> 0 \<le> mx"
  with assms(3) show "snd (pvalue_node (set query) mh mn mx nd) \<noteq> Skipped"
    by (simp add: pvalue_node_def reset_attrs_def get_background_def Let_def
        split: option.split)
qed

theorem missing_background_is_filtered_witness:
  "distinct (map fst (nodes (single_graph (new_node ''A''))))
   \<and> (''t'', new_node ''A'') \<in> set (nodes (single_graph (new_node ''A'')))
   \<and> node_background (new_node ''A'') = None
   \<and> 1 \<le> default_min_hit_size
   \<and> snd (pvalue_node (set [''a'']) default_min_hit_size default_min_category_size
        default_max_category_size (new_node ''A'')) = Skipped
   \<and> snd (calculate_pvalues (single_graph (new_node ''A'')) [''a''] default_min_hit_size
        default_min_category_size default_max_category_size) = Inr []
   \<and> (0 :: int) \<le> default_max_category_size
   \<and> snd (pvalue_node (set [''a'']) 0 0 default_max_category_size (new_node ''A''))
       = Raised KeyError"
proof -
  have 1: "1 \<le> default_min_hit_size"
    by (simp add: default_min_hit_size_def)
  have 2: "distinct (map fst (nodes (single_graph (new_node ''A''))))"
    by (simp add: single_graph_def)
  have 3: "(''t'', new_node ''A'') \<in> set (nodes (single_graph (new_node ''A'')))"
    by (simp add: single_graph_def)
  have 4: "node_background (new_node ''A'') = None"
    by (simp add: new_node_def)
  have 5: "snd (calculate_pvalues (single_graph (new_node ''A'')) [''a''] default_min_hit_size
        default_min_category_size default_max_category_size) = Inr []"
    by (simp add: pvalue_defs small_graph_defs Let_def)
  have 6: "(0 :: int) \<le> default_max_category_size"
    by (simp add: default_max_category_size_def)
  have 7: "snd (pvalue_node (set [''a'']) 0 0 default_max_category_size (new_node ''A''))
       = Raised KeyError"
    by (simp add: pvalue_defs small_graph_defs Let_def)
  from missing_background_is_filtered [OF 2 3 4, of "[''a'']" default_min_hit_size
      default_min_category_size default_max_category_size] 1
  have 8: "snd (pvalue_node (set [''a'']) default_min_hit_size default_min_category_size
        default_max_category_size (new_node ''A'')) = Skipped"
    by blast
  from missing_background_is_filtered [OF 2 3 4, of "[''a'']" 0 0 default_max_category_size] 6
  have "snd (pvalue_node (set [''a'']) 0 0 default_max_category_size (new_node ''A''))
       \<noteq> Skipped"
    by blast
  with 1 2 3 4 5 6 7 8 show ?thesis
    by (intro conjI)
qed

text \<open>
  C7, as the claim has it, fails for thresholds that admit an empty category: with
  \<open>min_category_size = 0\<close> and \<open>min_hit_size = 0\<close> the size 0 is inside the window and
  0 hits are enough, so the term is not filtered out; \<open>node['M']\<close> raises \<open>KeyError\<close> on
  a node that has no \<open>M\<close>, and on a node that has \<open>M\<close> the term enters the p-value map.
\<close>

theorem empty_category_within_thresholds:
  "snd (calculate_pvalues (single_graph (new_node ''A'')) [''a''] 0 0
          default_max_category_size)
     = Inl KeyError
   \<and> snd (calculate_pvalues (single_graph ((new_node ''A'')\<lparr>node_M := Some 1\<rparr>)) [''a''] 0 0
          default_max_category_size)
     = Inr [(''t'', 0)]"
proof -
  have "hypergeom_sf 0 (Suc 0) 0 (Suc 0) = 0"
    by code_simp
  then show ?thesis
    by (simp add: pvalue_defs small_graph_defs Let_def)
qed

section \<open>Properties of \<open>multiple_testing_correction\<close>\<close>

text \<open>
  C3. The claim: under \<open>bonferroni\<close> with \<open>k\<close> tested terms, \<open>q = p * k\<close> and the term
  is significant exactly when \<open>q < alpha\<close>. The code compares with the literal 0.05:
  for one tested term with \<open>p = 0.03\<close> and \<open>alpha = 0.01\<close> it records \<open>q = 0.03\<close> and
  \<open>significant = True\<close>, although \<open>q < alpha\<close> is false.
\<close>

theorem bonferroni_ignores_alpha:
  "map (\<lambda>(i, nd). (i, node_q nd, node_significant nd))
     (nodes (fst (multiple_testing_correction fdrcorrection
        (single_graph (annotated_node ''A'' {} 0)) [(''t'', 3 / 100)] (1 / 100) ''bonferroni'')))
     = [(''t'', Some (3 / 100), Some True)]
   \<and> \<not> (3 / 100 < (1 / 100 :: rat))"
  by (simp add: multiple_testing_correction_def set_q_def small_graph_defs)

text \<open>
  C5, as the code has it. For every method other than \<open>bonferroni\<close> and
  \<open>benjamini-hochberg\<close> the call raises \<open>ValueError(method)\<close> and leaves every node as
  it was; the method and \<open>alpha\<close> are written into the metadata of the graph before the
  method is looked at, so the graph does not stay unchanged.
\<close>

theorem unknown_method_raises:
  "method \<noteq> ''bonferroni'' \<Longrightarrow> method \<noteq> ''benjamini-hochberg'' \<Longrightarrow>
   multiple_testing_correction fdrcorrection G pvalues alpha method
     = (G\<lparr>mtc_method := Some method, mtc_alpha := Some alpha\<rparr>, Some (ValueError method))"
  by (simp add: multiple_testing_correction_def)

theorem unknown_method_raises_witness:
  "''holm'' \<noteq> ''bonferroni'' \<and> ''holm'' \<noteq> ''benjamini-hochberg''
   \<and> multiple_testing_correction (\<lambda>ps a. ([], [])) (single_graph (new_node ''A''))
        [(''t'', 1 / 100)] default_alpha ''holm''
     = ((single_graph (new_node ''A''))\<lparr>mtc_method := Some ''holm'', mtc_alpha := Some default_alpha\<rparr>,
        Some (ValueError ''holm''))"
  using unknown_method_raises [of "''holm''" "\<lambda>ps a. ([], [])" "single_graph (new_node ''A'')"
      "[(''t'', 1 / 100)]" default_alpha]
  by simp

text \<open>
  C5, as the claim has it, fails: after the call with the unknown method \<open>holm\<close> the
  graph is not the graph it was.
\<close>

theorem unknown_method_changes_graph:
  "fst (multiple_testing_correction (\<lambda>ps a. ([], [])) (single_graph (new_node ''A''))
          [(''t'', 1 / 100)] default_alpha ''holm'')
     \<noteq> single_graph (new_node ''A'')"
  by (simp add: multiple_testing_correction_def single_graph_def)

text \<open>
  C9. With an empty p-value map the method \<open>benjamini-hochberg\<close>, the default, raises
  an error, and the method \<open>bonferroni\<close> completes without one.
\<close>

theorem empty_pvalues_benjamini_hochberg_raises:
  "snd (multiple_testing_correction fdrcorrection G [] alpha default_method)
     = Some (ValueError ''not enough values to unpack'')
   \<and> snd (multiple_testing_correction fdrcorrection G [] alpha ''bonferroni'') = None"
  by (simp add: multiple_testing_correction_def default_method_def)

section \<open>Properties of \<open>set_background\<close>\<close>

subsection \<open>Only the background and \<open>M\<close> of a node change\<close>

lemma clean_background_update:
  "map_of ns n = Some nd \<Longrightarrow>
   clean_background M (AList.update n (nd\<lparr>node_background := b\<rparr>) ns) = clean_background M ns"
  by (induction ns) (auto simp: clean_background_def)

lemma clean_background_twice:
  "clean_background M (clean_background M' ns) = clean_background M ns"
  by (induction ns) (auto simp: clean_background_def)

lemma add_background_clean:
  "add_background es ns n = Inr ns' \<Longrightarrow> clean_background M ns' = clean_background M ns"
  by (auto simp: add_background_def clean_background_update split: option.splits)

lemma add_path_clean:
  "add_path es ns path = (ns', e) \<Longrightarrow> clean_background M ns' = clean_background M ns"
proof (induction path arbitrary: ns)
  case Nil
  then show ?case by simp
next
  case (Cons n path)
  show ?case
  proof (cases "add_background es ns n")
    case (Inl e')
    with Cons.prems show ?thesis by simp
  next
    case (Inr ns1)
    with Cons.prems have "add_path es ns1 path = (ns', e)" by simp
    from Cons.IH [OF this] add_background_clean [OF Inr] show ?thesis by simp
  qed
qed

lemma add_paths_clean:
  "add_paths es ns paths = (ns', e) \<Longrightarrow> clean_background M ns' = clean_background M ns"
proof (induction paths arbitrary: ns)
  case Nil
  then show ?case by simp
next
  case (Cons path paths)
  obtain ns1 e1 where p: "add_path es ns path = (ns1, e1)"
    by (cases "add_path es ns path")
  note c = add_path_clean [OF p, of M]
  show ?case
  proof (cases e1)
    case None
    with Cons.prems p have "add_paths es ns1 paths = (ns', e)" by simp
    from Cons.IH [OF this] c show ?thesis by simp
  next
    case (Some e')
    with Cons.prems p c show ?thesis by simp
  qed
qed

lemma propagate_term_clean:
  assumes "propagate_term G grp = (G', e)"
  shows "G'\<lparr>nodes := clean_background M (nodes G')\<rparr> = G\<lparr>nodes := clean_background M (nodes G)\<rparr>"
proof -
  obtain c es where grp: "grp = (c, es)" by (cases grp)
  show ?thesis
    using assms unfolding grp propagate_term_def
    by (auto split: sum.splits prod.splits dest: add_paths_clean [where M = M])
qed

lemma propagate_clean:
  "propagate G grouped = (G', e) \<Longrightarrow>
   G'\<lparr>nodes := clean_background M (nodes G')\<rparr> = G\<lparr>nodes := clean_background M (nodes G)\<rparr>"
proof (induction grouped arbitrary: G)
  case Nil
  then show ?case by simp
next
  case (Cons grp grouped)
  obtain G1 e1 where t: "propagate_term G grp = (G1, e1)"
    by (cases "propagate_term G grp")
  note c = propagate_term_clean [OF t, of M]
  show ?case
  proof (cases e1)
    case None
    with Cons.prems t have "propagate G1 grouped = (G', e)" by simp
    from Cons.IH [OF this] c show ?thesis by simp
  next
    case (Some e')
    with Cons.prems t c show ?thesis by simp
  qed
qed

lemma set_background_after_set_background:
  "set_background (fst (set_background G df1)) df2 = set_background G df2"
proof -
  obtain G1 e1 where 1: "set_background G df1 = (G1, e1)"
    by (cases "set_background G df1")
  let ?M = "card (set (map fst df2))"
  from 1 have "propagate (G\<lparr>nodes := clean_background (card (set (map fst df1))) (nodes G)\<rparr>)
      (groupby df1) = (G1, e1)"
    by (simp add: set_background_def)
  from propagate_clean [OF this, of ?M]
  have "G1\<lparr>nodes := clean_background ?M (nodes G1)\<rparr> = G\<lparr>nodes := clean_background ?M (nodes G)\<rparr>"
    by (simp add: clean_background_twice)
  with 1 show ?thesis
    by (simp add: set_background_def)
qed

lemma set_background_same_skeleton:
  assumes "G1\<lparr>nodes := clean_background M (nodes G1)\<rparr> = G2\<lparr>nodes := clean_background M (nodes G2)\<rparr>"
  shows "set_background G1 df = set_background G2 df"
proof -
  let ?M = "card (set (map fst df))"
  let ?H1 = "G1\<lparr>nodes := clean_background M (nodes G1)\<rparr>"
  let ?H2 = "G2\<lparr>nodes := clean_background M (nodes G2)\<rparr>"
  from assms have "?H1\<lparr>nodes := clean_background ?M (nodes ?H1)\<rparr>
      = ?H2\<lparr>nodes := clean_background ?M (nodes ?H2)\<rparr>"
    by simp
  then have "G1\<lparr>nodes := clean_background ?M (nodes G1)\<rparr>
      = G2\<lparr>nodes := clean_background ?M (nodes G2)\<rparr>"
    by (simp add: clean_background_twice)
  then show ?thesis
    by (simp add: set_background_def)
qed

text \<open>
  C8. The result of \<open>set_background\<close> does not depend on the backgrounds and the \<open>M\<close>
  that the nodes had before: two graphs that differ in nothing else give the same
  result. So a second call with the same table gives the graph, with every background
  and every \<open>M\<close>, and the outcome of the first call, and a call with another table gives
  what that table gives on the original graph; nothing of the earlier backgrounds is
  left.
\<close>

theorem set_background_discards_prior_state:
  "(G1\<lparr>nodes := clean_background M (nodes G1)\<rparr> = G2\<lparr>nodes := clean_background M (nodes G2)\<rparr>
      \<longrightarrow> set_background G1 df = set_background G2 df)
   \<and> set_background (fst (set_background G df)) df = set_background G df
   \<and> set_background (fst (set_background G df)) df' = set_background G df'"
proof (intro conjI impI)
  assume "G1\<lparr>nodes := clean_background M (nodes G1)\<rparr>
    = G2\<lparr>nodes := clean_background M (nodes G2)\<rparr>"
  then show "set_background G1 df = set_background G2 df"
    by (rule set_background_same_skeleton)
next
  show "set_background (fst (set_background G df)) df = set_background G df"
    by (rule set_background_after_set_background)
next
  show "set_background (fst (set_background G df)) df' = set_background G df'"
    by (rule set_background_after_set_background)
qed

text \<open>
  The diamond whose nodes all hold the background \<open>{old}\<close> and \<open>M = 9\<close> gets the
  backgrounds and the \<open>M = 3\<close> of the table, as the fresh diamond does.
\<close>

theorem set_background_discards_prior_state_witness:
  "used_diamond_graph\<lparr>nodes := clean_background 0 (nodes used_diamond_graph)\<rparr>
     = diamond_graph\<lparr>nodes := clean_background 0 (nodes diamond_graph)\<rparr>
   \<and> used_diamond_graph \<noteq> diamond_graph
   \<and> set_background used_diamond_graph diamond_table = set_background diamond_graph diamond_table
   \<and> background_at (nodes (fst (set_background used_diamond_graph diamond_table))) ''top''
       = Some {''e1'', ''e2'', ''e3''}
   \<and> map (\<lambda>(i, nd). (i, node_M nd)) (nodes (fst (set_background used_diamond_graph diamond_table)))
       = [(''leaf'', Some 3), (''left'', Some 3), (''right'', Some 3), (''top'', Some 3)]"
proof -
  have 1: "used_diamond_graph\<lparr>nodes := clean_background 0 (nodes used_diamond_graph)\<rparr>
     = diamond_graph\<lparr>nodes := clean_background 0 (nodes diamond_graph)\<rparr>"
    by (simp add: used_diamond_graph_def diamond_graph_def clean_background_def)
  have 2: "used_diamond_graph \<noteq> diamond_graph"
    by (simp add: used_diamond_graph_def diamond_graph_def new_node_def)
  have 3: "background_at (nodes (fst (set_background diamond_graph diamond_table))) ''top''
       = Some {''e1'', ''e2'', ''e3''}"
    by code_simp
  have 4: "map (\<lambda>(i, nd). (i, node_M nd)) (nodes (fst (set_background diamond_graph diamond_table)))
       = [(''leaf'', Some 3), (''left'', Some 3), (''right'', Some 3), (''top'', Some 3)]"
    by code_simp
  from set_background_discards_prior_state
    [where ?G1.0 = used_diamond_graph and M = 0 and ?G2.0 = diamond_graph and df = diamond_table] 1
  have 5: "set_background used_diamond_graph diamond_table
      = set_background diamond_graph diamond_table"
    by blast
  from 3 have 6: "background_at (nodes (fst (set_background used_diamond_graph diamond_table)))
      ''top'' = Some {''e1'', ''e2'', ''e3''}"
    by (simp only: 5)
  from 4 have 7: "map (\<lambda>(i, nd). (i, node_M nd))
      (nodes (fst (set_background used_diamond_graph diamond_table)))
       = [(''leaf'', Some 3), (''left'', Some 3), (''right'', Some 3), (''top'', Some 3)]"
    by (simp only: 5)
  from 1 2 5 6 7 show ?thesis
    by (intro conjI)
qed

subsection \<open>The paths of the depth-first search are the simple walks to the target\<close>

lemma walk_Cons: "walk sc (a # q) = (q = [] \<or> (hd q \<in> set (sc a) \<and> walk sc q))"
  by (cases q) auto

lemma walk_append_edge:
  "walk sc (xs @ [a]) \<Longrightarrow> b \<in> set (sc a) \<Longrightarrow> walk sc (b # ys) \<Longrightarrow> walk sc (xs @ a # b # ys)"
  by (induction sc xs rule: walk.induct) (auto simp: walk_Cons)

lemma walk_prefix: "walk sc (xs @ ys) \<Longrightarrow> walk sc xs"
  by (induction sc xs rule: walk.induct) (auto simp: walk_Cons)

lemma reaches_walk:
  "reaches sc k a b \<Longrightarrow> \<exists>q. walk sc (a # q) \<and> last (a # q) = b"
proof (induction k arbitrary: a)
  case 0
  then have "walk sc (a # []) \<and> last (a # []) = b" by simp
  then show ?case by blast
next
  case (Suc k)
  show ?case
  proof (cases "a = b")
    case True
    then have "walk sc (a # []) \<and> last (a # []) = b" by simp
    then show ?thesis by blast
  next
    case False
    with Suc.prems obtain c where c: "c \<in> set (sc a)" "reaches sc k c b" by auto
    from Suc.IH [OF c(2)] obtain q where "walk sc (c # q)" "last (c # q) = b" by blast
    with c(1) have "walk sc (a # c # q) \<and> last (a # c # q) = b" by simp
    then show ?thesis by blast
  qed
qed

lemma dfs_sound:
  "p \<in> set (simple_paths_dfs sc t d visited cs) \<Longrightarrow>
   \<exists>w. p = visited @ w @ [t] \<and> walk sc (w @ [t]) \<and> hd (w @ [t]) \<in> set cs"
proof (induction sc t d visited cs rule: simple_paths_dfs.induct)
  case (1 sc t d visited)
  then show ?case by simp
next
  case (2 sc t visited child cs)
  then have "p = visited @ [] @ [t] \<and> walk sc ([] @ [t]) \<and> hd ([] @ [t]) \<in> set (child # cs)"
    by (auto split: if_splits)
  then show ?case by blast
next
  case (3 sc t d visited child cs)
  from "3.prems" consider
      (hit) "child = t" "p = visited @ [t]"
    | (down) "child \<noteq> t" "child \<notin> set visited"
        "p \<in> set (simple_paths_dfs sc t d (visited @ [child]) (sc child))"
    | (rest) "p \<in> set (simple_paths_dfs sc t (Suc d) visited cs)"
    by (auto split: if_splits)
  then show ?case
  proof cases
    case hit
    then have "p = visited @ [] @ [t] \<and> walk sc ([] @ [t]) \<and> hd ([] @ [t]) \<in> set (child # cs)"
      by simp
    then show ?thesis by blast
  next
    case down
    from "3.IH"(1) [OF down] obtain w where
      w: "p = (visited @ [child]) @ w @ [t]" "walk sc (w @ [t])" "hd (w @ [t]) \<in> set (sc child)"
      by blast
    then have "p = visited @ (child # w) @ [t] \<and> walk sc ((child # w) @ [t])
        \<and> hd ((child # w) @ [t]) \<in> set (child # cs)"
      by (simp add: walk_Cons)
    then show ?thesis by blast
  next
    case rest
    from "3.IH"(2) [OF rest] show ?thesis by auto
  qed
qed

lemma dfs_complete:
  "walk sc (w @ [t]) \<Longrightarrow> hd (w @ [t]) \<in> set cs \<Longrightarrow> distinct w \<Longrightarrow> set w \<inter> set visited = {} \<Longrightarrow>
   t \<notin> set w \<Longrightarrow> length w \<le> d \<Longrightarrow>
   visited @ w @ [t] \<in> set (simple_paths_dfs sc t d visited cs)"
proof (induction sc t d visited cs arbitrary: w rule: simple_paths_dfs.induct)
  case (1 sc t d visited)
  then show ?case by simp
next
  case (2 sc t visited child cs)
  then show ?case by auto
next
  case (3 sc t d visited child cs)
  show ?case
  proof (cases "hd (w @ [t]) = child")
    case True
    show ?thesis
    proof (cases w)
      case Nil
      with True show ?thesis by simp
    next
      case (Cons a w')
      with True "3.prems" have a: "a = child" "child \<noteq> t" "child \<notin> set visited"
        by auto
      from Cons "3.prems" a have
        "walk sc (w' @ [t])" "hd (w' @ [t]) \<in> set (sc child)" "distinct w'"
        "set w' \<inter> set (visited @ [child]) = {}" "t \<notin> set w'" "length w' \<le> d"
        by (auto simp: walk_Cons)
      from "3.IH"(1) [OF a(2,3) this] Cons a show ?thesis
        by simp
    qed
  next
    case False
    with "3.prems" have "hd (w @ [t]) \<in> set cs" by auto
    from "3.IH"(2) [OF "3.prems"(1) this "3.prems"(3-6)] show ?thesis
      by simp
  qed
qed

subsection \<open>The background of a term after the propagation\<close>

lemma map_of_clean_background:
  "map_of (clean_background M ns) t
     = map_option (\<lambda>nd. nd\<lparr>node_background := Some {}, node_M := Some M\<rparr>) (map_of ns t)"
  by (induction ns) (auto simp: clean_background_def)

lemma length_clean_background [simp]: "length (clean_background M ns) = length ns"
  by (simp add: clean_background_def)

lemma term_paths_clean:
  "term_paths (G\<lparr>nodes := clean_background M (nodes G)\<rparr>) c = term_paths G c"
  by (auto simp: term_paths_def root_of_def all_simple_paths_def map_of_clean_background Let_def
      split: option.splits sum.splits)

lemma term_paths_cong:
  assumes "G'\<lparr>nodes := clean_background M (nodes G')\<rparr> = G\<lparr>nodes := clean_background M (nodes G)\<rparr>"
  shows "term_paths G' c = term_paths G c"
  using term_paths_clean [where G = G' and M = M and c = c]
    term_paths_clean [where G = G and M = M and c = c] assms by simp

lemma on_path_cong:
  assumes "G'\<lparr>nodes := clean_background M (nodes G')\<rparr> = G\<lparr>nodes := clean_background M (nodes G)\<rparr>"
  shows "on_path G' c v = on_path G c v"
  by (simp add: on_path_def term_paths_cong [OF assms])

lemma add_background_at:
  "add_background es ns n = Inr ns' \<Longrightarrow>
   background_at ns' v = map_option (\<lambda>b. if v = n then b \<union> es else b) (background_at ns v)"
  by (cases "v = n")
    (auto simp: add_background_def background_at_def update_conv' option.map_ident
      split: option.splits)

lemma add_path_at:
  "add_path es ns p = (ns', None) \<Longrightarrow>
   background_at ns' v = map_option (\<lambda>b. if v \<in> set p then b \<union> es else b) (background_at ns v)"
proof (induction p arbitrary: ns)
  case Nil
  then show ?case by (simp add: option.map_ident)
next
  case (Cons n p)
  from Cons.prems obtain ns1 where 1: "add_background es ns n = Inr ns1"
    and 2: "add_path es ns1 p = (ns', None)"
    by (auto split: sum.splits)
  from Cons.IH [OF 2] add_background_at [OF 1, of v] show ?case
    by (cases "background_at ns v") auto
qed

lemma add_paths_at:
  "add_paths es ns ps = (ns', None) \<Longrightarrow>
   background_at ns' v
     = map_option (\<lambda>b. if v \<in> \<Union> (set ` set ps) then b \<union> es else b) (background_at ns v)"
proof (induction ps arbitrary: ns)
  case Nil
  then show ?case by (simp add: option.map_ident)
next
  case (Cons p ps)
  from Cons.prems obtain ns1 where 1: "add_path es ns p = (ns1, None)"
    and 2: "add_paths es ns1 ps = (ns', None)"
    by (auto split: prod.splits option.splits)
  from Cons.IH [OF 2] add_path_at [OF 1, of v] show ?case
    by (cases "background_at ns v") auto
qed

lemma propagate_term_at:
  assumes "propagate_term G (c, es) = (G', None)"
  shows "background_at (nodes G') v
     = map_option (\<lambda>b. if on_path G c v then b \<union> set es else b) (background_at (nodes G) v)"
proof -
  from assms obtain r ps ns where r: "root_of G c = Inr r"
    and ps: "all_simple_paths G c r = Inr ps"
    and ns: "add_paths (set es) (nodes G) ps = (ns, None)" and G': "G' = G\<lparr>nodes := ns\<rparr>"
    by (auto simp: propagate_term_def split: sum.splits prod.splits)
  from r ps have "on_path G c v = (v \<in> \<Union> (set ` set ps))"
    by (simp add: on_path_def term_paths_def)
  with add_paths_at [OF ns, of v] G' show ?thesis by simp
qed

lemma propagate_at:
  "propagate G grouped = (G', None) \<Longrightarrow>
   background_at (nodes G') v
     = map_option (\<lambda>b. b \<union> (\<Union>(c, es) \<in> set grouped. if on_path G c v then set es else {}))
         (background_at (nodes G) v)"
proof (induction grouped arbitrary: G)
  case Nil
  then show ?case by (simp add: option.map_ident)
next
  case (Cons grp grouped)
  obtain c es where grp: "grp = (c, es)" by (cases grp)
  from Cons.prems grp obtain G1 where 1: "propagate_term G (c, es) = (G1, None)"
    and 2: "propagate G1 grouped = (G', None)"
    by (auto split: prod.splits option.splits)
  have same: "on_path G1 c' v = on_path G c' v" for c'
    by (rule on_path_cong [OF propagate_term_clean [OF 1, of 0]])
  from Cons.IH [OF 2] propagate_term_at [OF 1, of v] grp show ?case
    by (cases "background_at (nodes G) v") (auto simp: same)
qed

lemma background_at_clean:
  "background_at (clean_background M ns) v
     = (if v \<in> set (map fst ns) then Some {} else None)"
proof (cases "map_of ns v")
  case None
  then have "v \<notin> fst ` set ns"
    by (simp add: map_of_eq_None_iff)
  with None show ?thesis
    by (simp add: background_at_def map_of_clean_background)
next
  case (Some nd)
  then have "v \<in> fst ` set ns"
    by (metis domI dom_map_of_conv_image_fst)
  with Some show ?thesis
    by (simp add: background_at_def map_of_clean_background)
qed

lemma set_background_at:
  assumes "set_background G df = (G', None)"
  shows "background_at (nodes G') v
     = (if v \<in> set (map fst (nodes G))
        then Some (\<Union>(c, es) \<in> set (groupby df). if on_path G c v then set es else {})
        else None)"
proof -
  let ?M = "card (set (map fst df))"
  let ?G0 = "G\<lparr>nodes := clean_background ?M (nodes G)\<rparr>"
  from assms have "propagate ?G0 (groupby df) = (G', None)"
    by (simp add: set_background_def)
  from propagate_at [OF this, of v] show ?thesis
    by (simp add: background_at_clean on_path_def term_paths_clean)
qed

subsection \<open>Walks of an acyclic graph, and the step along an edge\<close>

lemma walk_stays:
  assumes "digraph G"
  shows "walk (succs G) (a # q) \<Longrightarrow> a \<in> set (map fst (nodes G)) \<Longrightarrow>
    set q \<subseteq> set (map fst (nodes G))"
proof (induction q arbitrary: a)
  case Nil
  then show ?case by simp
next
  case (Cons b q)
  from Cons.prems have e: "b \<in> set (succs G a)" and w: "walk (succs G) (b # q)" by simp_all
  from e Cons.prems(2) assms have b: "b \<in> set (map fst (nodes G))"
    unfolding digraph_def by blast
  from Cons.IH [OF w b] b show ?case by simp
qed

lemma walk_keeps_root:
  assumes "digraph G" and "edges_keep_root G"
  shows "walk (succs G) (a # q) \<Longrightarrow> a \<in> set (map fst (nodes G)) \<Longrightarrow> u \<in> set q \<Longrightarrow>
    root_of G u = root_of G a"
proof (induction q arbitrary: a)
  case Nil
  then show ?case by simp
next
  case (Cons b q)
  from Cons.prems have e: "b \<in> set (succs G a)" and w: "walk (succs G) (b # q)" by simp_all
  from e Cons.prems(2) assms(1) have b: "b \<in> set (map fst (nodes G))"
    unfolding digraph_def by blast
  from e Cons.prems(2) assms(2) have r: "root_of G b = root_of G a"
    unfolding edges_keep_root_def by blast
  show ?case
  proof (cases "u = b")
    case True
    with r show ?thesis by simp
  next
    case False
    with Cons.prems(3) have "u \<in> set q" by simp
    from Cons.IH [OF w b this] r show ?thesis by simp
  qed
qed

lemma walk_falls:
  assumes "digraph G" and "dag G rank"
  shows "walk (succs G) (a # q) \<Longrightarrow> a \<in> set (map fst (nodes G)) \<Longrightarrow> u \<in> set q \<Longrightarrow>
    rank u < rank a"
proof (induction q arbitrary: a)
  case Nil
  then show ?case by simp
next
  case (Cons b q)
  from Cons.prems have e: "b \<in> set (succs G a)" and w: "walk (succs G) (b # q)" by simp_all
  from e Cons.prems(2) assms(1) have b: "b \<in> set (map fst (nodes G))"
    unfolding digraph_def by blast
  from e Cons.prems(2) assms(2) have r: "rank b < rank a"
    unfolding dag_def by blast
  show ?case
  proof (cases "u = b")
    case True
    with r show ?thesis by simp
  next
    case False
    with Cons.prems(3) have "u \<in> set q" by simp
    from Cons.IH [OF w b this] r show ?thesis by simp
  qed
qed

lemma walk_distinct:
  assumes "digraph G" and "dag G rank"
  shows "walk (succs G) (a # q) \<Longrightarrow> a \<in> set (map fst (nodes G)) \<Longrightarrow> distinct (a # q)"
proof (induction q arbitrary: a)
  case Nil
  then show ?case by simp
next
  case (Cons b q)
  from Cons.prems have e: "b \<in> set (succs G a)" and w: "walk (succs G) (b # q)" by simp_all
  from e Cons.prems(2) assms(1) have b: "b \<in> set (map fst (nodes G))"
    unfolding digraph_def by blast
  have "a \<notin> set (b # q)"
  proof
    assume "a \<in> set (b # q)"
    from walk_falls [OF assms Cons.prems this] show False by simp
  qed
  with Cons.IH [OF w b] show ?case by simp
qed

lemma on_path_edge:
  assumes dg: "digraph G" and dag: "dag G rank" and rooted: "rooted G"
    and keep: "edges_keep_root G"
    and on: "on_path G c child" and edge: "parent \<in> set (succs G child)"
  shows "on_path G c parent"
proof -
  let ?sc = "succs G"
  let ?ids = "set (map fst (nodes G))"
  let ?L = "length (nodes G)"
  from on obtain ps p where tp: "term_paths G c = Inr ps" and p: "p \<in> set ps"
    and child: "child \<in> set p"
    by (auto simp: on_path_def split: sum.splits)
  from tp obtain r where r: "root_of G c = Inr r" and asp: "all_simple_paths G c r = Inr ps"
    by (auto simp: term_paths_def split: sum.splits)
  from asp p have c_in: "c \<in> ?ids"
    and ps: "ps = simple_paths_dfs ?sc r (?L - 1 - 1) [c] (?sc c)"
    by (auto simp: all_simple_paths_def Let_def map_of_eq_None_iff split: if_splits)
  from dfs_sound [of p ?sc r "?L - 1 - 1" "[c]" "?sc c"] p ps obtain w where
    pw: "p = c # w @ [r]" and ww: "walk ?sc (w @ [r])" and hw: "hd (w @ [r]) \<in> set (?sc c)"
    by auto
  from ww hw have wp: "walk ?sc (c # w @ [r])"
    by (simp add: walk_Cons)
  have child_in: "child \<in> ?ids" and child_root: "root_of G child = Inr r"
  proof -
    from child pw consider "child = c" | "child \<in> set (w @ [r])" by auto
    then show "child \<in> ?ids"
    proof cases
      case 1
      with c_in show ?thesis by simp
    next
      case 2
      with walk_stays [OF dg wp c_in] show ?thesis by blast
    qed
    from child pw consider "child = c" | "child \<in> set (w @ [r])" by auto
    then show "root_of G child = Inr r"
    proof cases
      case 1
      with r show ?thesis by simp
    next
      case 2
      from walk_keeps_root [OF dg keep wp c_in 2] r show ?thesis by simp
    qed
  qed
  from edge child_in dg have parent_in: "parent \<in> ?ids"
    unfolding digraph_def by blast
  from edge child_in keep child_root have parent_root: "root_of G parent = Inr r"
    unfolding edges_keep_root_def by force
  from rooted parent_in parent_root have "reaches ?sc ?L parent r"
    unfolding rooted_def by force
  from reaches_walk [OF this] obtain q where
    wq: "walk ?sc (parent # q)" and lq: "last (parent # q) = r"
    by blast
  from child obtain p1 p2 where split: "p = p1 @ child # p2"
    by (auto simp: in_set_conv_decomp)
  from wp pw split have "walk ?sc ((p1 @ [child]) @ p2)" by simp
  then have w1: "walk ?sc (p1 @ [child])" by (rule walk_prefix)
  from pw split obtain m where m: "p1 @ [child] = c # m"
    by (cases p1) auto
  from walk_append_edge [OF w1 edge wq] have "walk ?sc ((p1 @ [child]) @ parent # q)"
    by simp
  with m have wW: "walk ?sc (c # m @ parent # q)" by simp
  let ?w' = "butlast (m @ parent # q)"
  from lq have tail: "m @ parent # q = ?w' @ [r]"
    by (metis append_butlast_last_id append_is_Nil_conv last_appendR list.distinct(1))
  with wW have wW': "walk ?sc (c # ?w' @ [r])" by simp
  from walk_distinct [OF dg dag wW' c_in] have
    d: "distinct ?w'" "c \<notin> set ?w'" "r \<notin> set ?w'"
    by auto
  from walk_stays [OF dg wW' c_in] c_in have "set (c # ?w' @ [r]) \<subseteq> ?ids" by simp
  then have "card (set (c # ?w' @ [r])) \<le> card ?ids"
    by (intro card_mono) auto
  moreover from walk_distinct [OF dg dag wW' c_in]
  have "card (set (c # ?w' @ [r])) = length (c # ?w' @ [r])"
    by (rule distinct_card)
  moreover have "card ?ids \<le> ?L"
    by (metis card_length length_map)
  ultimately have len: "length ?w' \<le> ?L - 1 - 1" by simp
  from wW' have w2: "walk ?sc (?w' @ [r])" and h2: "hd (?w' @ [r]) \<in> set (?sc c)"
    by (simp_all add: walk_Cons)
  from d(2) have "set ?w' \<inter> set [c] = {}" by simp
  from dfs_complete [OF w2 h2 d(1) this d(3) len] ps
  have "c # ?w' @ [r] \<in> set ps" by simp
  moreover have "parent \<in> set (c # ?w' @ [r])"
    using tail by (metis in_set_conv_decomp list.set_intros(2))
  ultimately have "parent \<in> \<Union> (set ` set ps)"
    by blast
  with tp show ?thesis
    by (simp add: on_path_def)
qed

text \<open>
  The inclusion along the edges. After \<open>set_background\<close> has completed on an acyclic
  graph in which every term reaches the root of its namespace and the two ends of every
  edge have the same namespace root (as they have when every term reaches one namespace
  root only), the background of the parent of an edge contains the background of its
  child.
\<close>

lemma background_grows_along_edges:
  assumes "set_background G df = (G', None)"
    and "digraph G" and "dag G rank" and "rooted G" and "edges_keep_root G"
    and "child \<in> set (map fst (nodes G))" and "parent \<in> set (succs G child)"
  shows "\<exists>bc bp. background_at (nodes G') child = Some bc
    \<and> background_at (nodes G') parent = Some bp \<and> bc \<subseteq> bp"
proof -
  let ?bg = "\<lambda>v. \<Union>(c, es) \<in> set (groupby df). if on_path G c v then set es else {}"
  from assms(2,6,7) have parent: "parent \<in> set (map fst (nodes G))"
    unfolding digraph_def by blast
  have step: "on_path G c child \<Longrightarrow> on_path G c parent" for c
    using assms(2-5) _ assms(7) by (rule on_path_edge)
  have "?bg child \<subseteq> ?bg parent"
  proof
    fix e
    assume "e \<in> ?bg child"
    then obtain c es where "(c, es) \<in> set (groupby df)" "on_path G c child" "e \<in> set es"
      by (auto split: if_splits)
    with step [of c] show "e \<in> ?bg parent"
      by force
  qed
  moreover from set_background_at [OF assms(1), of child] assms(6)
  have "background_at (nodes G') child = Some (?bg child)" by simp
  moreover from set_background_at [OF assms(1), of parent] parent
  have "background_at (nodes G') parent = Some (?bg parent)" by simp
  ultimately show ?thesis by blast
qed

text \<open>
  On the diamond the two paths from \<open>leaf\<close> meet again in \<open>top\<close>, whose background is
  the union of the three annotated sets.
\<close>

lemma background_grows_along_edges_diamond:
  "snd (set_background diamond_graph diamond_table) = None
   \<and> digraph diamond_graph \<and> dag diamond_graph diamond_rank \<and> rooted diamond_graph
   \<and> edges_keep_root diamond_graph
   \<and> ''left'' \<in> set (map fst (nodes diamond_graph))
   \<and> ''top'' \<in> set (succs diamond_graph ''left'')
   \<and> background_at (nodes (fst (set_background diamond_graph diamond_table))) ''left''
       = Some {''e1'', ''e2''}
   \<and> background_at (nodes (fst (set_background diamond_graph diamond_table))) ''top''
       = Some {''e1'', ''e2'', ''e3''}"
proof -
  let ?G' = "fst (set_background diamond_graph diamond_table)"
  have 0: "snd (set_background diamond_graph diamond_table) = None"
    by code_simp
  then have 1: "set_background diamond_graph diamond_table = (?G', None)"
    by (simp add: prod_eq_iff)
  have 2: "digraph diamond_graph"
    by (simp add: digraph_def diamond_graph_def)
  have 3: "dag diamond_graph diamond_rank"
    by (simp add: dag_def diamond_graph_def diamond_rank_def)
  have 4: "rooted diamond_graph"
    by (simp add: rooted_def diamond_graph_def root_of_def new_node_def eval_nat_numeral)
  have 5: "edges_keep_root diamond_graph"
    by (simp add: edges_keep_root_def diamond_graph_def root_of_def new_node_def)
  have 6: "''left'' \<in> set (map fst (nodes diamond_graph))"
    by (simp add: diamond_graph_def)
  have 7: "''top'' \<in> set (succs diamond_graph ''left'')"
    by (simp add: diamond_graph_def)
  have 8: "background_at (nodes ?G') ''left'' = Some {''e1'', ''e2''}"
    by code_simp
  have 9: "background_at (nodes ?G') ''top'' = Some {''e1'', ''e2'', ''e3''}"
    by code_simp
  from background_grows_along_edges [OF 1 2 3 4 5 6 7] 0 2 3 4 5 6 7 8 9
  show ?thesis by simp
qed

text \<open>
  C4. The claim: after \<open>set_background\<close> the background of a parent contains the
  background of its child, and the propagation from the leaves to the root has no
  duplication or loss. The code walks the simple paths from the category to the root of
  its namespace; from a category that is itself the root there is no such path, so an
  entry annotated to the root is lost: on the diamond the entry \<open>e4\<close> of \<open>top\<close> is in
  no background, not in that of \<open>top\<close> either, while \<open>M = 4\<close> counts it.
\<close>

theorem root_annotations_lost:
  "snd (set_background diamond_graph diamond_root_table) = None
   \<and> background_at (nodes (fst (set_background diamond_graph diamond_root_table))) ''leaf''
       = Some {''e1''}
   \<and> background_at (nodes (fst (set_background diamond_graph diamond_root_table))) ''left''
       = Some {''e1'', ''e2''}
   \<and> background_at (nodes (fst (set_background diamond_graph diamond_root_table))) ''right''
       = Some {''e1'', ''e3''}
   \<and> background_at (nodes (fst (set_background diamond_graph diamond_root_table))) ''top''
       = Some {''e1'', ''e2'', ''e3''}
   \<and> map (\<lambda>(i, nd). (i, node_M nd))
        (nodes (fst (set_background diamond_graph diamond_root_table)))
       = [(''leaf'', Some 4), (''left'', Some 4), (''right'', Some 4), (''top'', Some 4)]"
proof -
  let ?G' = "fst (set_background diamond_graph diamond_root_table)"
  have 0: "snd (set_background diamond_graph diamond_root_table) = None"
    by code_simp
  have 1: "background_at (nodes ?G') ''leaf'' = Some {''e1''}"
    by code_simp
  have 2: "background_at (nodes ?G') ''left'' = Some {''e1'', ''e2''}"
    by code_simp
  have 3: "background_at (nodes ?G') ''right'' = Some {''e1'', ''e3''}"
    by code_simp
  have 4: "background_at (nodes ?G') ''top'' = Some {''e1'', ''e2'', ''e3''}"
    by code_simp
  have 5: "map (\<lambda>(i, nd). (i, node_M nd)) (nodes ?G')
       = [(''leaf'', Some 4), (''left'', Some 4), (''right'', Some 4), (''top'', Some 4)]"
    by code_simp
  from 0 1 2 3 4 5 show ?thesis by simp
qed

subsection \<open>A category that has no path to its root\<close>

lemma root_of_clean:
  "root_of (G\<lparr>nodes := clean_background M (nodes G)\<rparr>) c = root_of G c"
  by (auto simp: root_of_def map_of_clean_background split: option.splits)

lemma all_simple_paths_no_walk:
  assumes "map_of (nodes G) c \<noteq> None" and "map_of (nodes G) r \<noteq> None"
    and "\<forall>p. \<not> walk (succs G) (c # p @ [r])"
  shows "all_simple_paths G c r = Inr []"
proof -
  let ?ps = "simple_paths_dfs (succs G) r (length (nodes G) - 1 - 1) [c] (succs G c)"
  have "?ps = []"
  proof (rule ccontr)
    assume "?ps \<noteq> []"
    then obtain p where "p \<in> set ?ps"
      by (cases ?ps) auto
    from dfs_sound [OF this] obtain w where
      "walk (succs G) (w @ [r])" "hd (w @ [r]) \<in> set (succs G c)"
      by blast
    then have "walk (succs G) (c # w @ [r])"
      by (simp add: walk_Cons)
    with assms(3) show False by blast
  qed
  with assms(1,2) show ?thesis
    by (simp add: all_simple_paths_def Let_def)
qed

lemma propagate_term_no_walk:
  assumes "root_of G c = Inr r" and "r \<in> set (map fst (nodes G))"
    and "\<forall>p. \<not> walk (succs G) (c # p @ [r])"
  shows "propagate_term G (c, entries) = (G, None)"
proof -
  from assms(1) have c: "map_of (nodes G) c \<noteq> None"
    by (auto simp: root_of_def split: option.splits)
  from assms(2) have r: "map_of (nodes G) r \<noteq> None"
    by (simp add: map_of_eq_None_iff)
  from all_simple_paths_no_walk [OF c r assms(3)] assms(1) show ?thesis
    by (simp add: propagate_term_def)
qed

lemma groupby_single:
  assumes "set (map snd df) = {c}"
  shows "groupby df = [(c, map fst df)]"
proof -
  have d: "distinct (remdups (map snd df))" by simp
  have s: "set (remdups (map snd df)) = {c}" using assms by simp
  have "remdups (map snd df) = [c]"
  proof (cases "remdups (map snd df)")
    case Nil
    with s show ?thesis by simp
  next
    case (Cons a ys)
    with s d have "a = c" "set ys \<subseteq> {c}" "a \<notin> set ys" by auto
    then have "ys = []" by (cases ys) auto
    with Cons \<open>a = c\<close> show ?thesis by simp
  qed
  moreover from assms have "filter (\<lambda>row. snd row = c) df = df"
    by (auto simp: filter_id_conv)
  ultimately show ?thesis
    by (simp add: groupby_def)
qed

text \<open>
  C10. When the term of a category \<open>c\<close> exists, its namespace has a root that is a node
  of the graph, and no walk leads from \<open>c\<close> to that root, the body of the loop for \<open>c\<close>
  leaves the graph as it is and raises no error: the entries of \<open>c\<close> are added to no
  background, not to that of \<open>c\<close> either. A table that has no other category leaves
  every background empty.
\<close>

theorem unreachable_root_drops_annotations:
  assumes "root_of G c = Inr r" and "r \<in> set (map fst (nodes G))"
    and "\<forall>p. \<not> walk (succs G) (c # p @ [r])"
  shows "propagate_term G (c, entries) = (G, None)
    \<and> (set (map snd df) = {c} \<longrightarrow>
         set_background G df
           = (G\<lparr>nodes := clean_background (card (set (map fst df))) (nodes G)\<rparr>, None))"
proof -
  let ?G0 = "G\<lparr>nodes := clean_background (card (set (map fst df))) (nodes G)\<rparr>"
  have 1: "root_of ?G0 c = Inr r"
    using assms(1) by (simp add: root_of_clean)
  have 2: "r \<in> set (map fst (nodes ?G0))"
    using assms(2) by (simp add: clean_background_def comp_def case_prod_unfold)
  have 3: "\<forall>p. \<not> walk (succs ?G0) (c # p @ [r])"
    using assms(3) by simp
  have "set_background G df = (?G0, None)" if "set (map snd df) = {c}"
    using propagate_term_no_walk [OF 1 2 3, of "map fst df"] groupby_single [OF that]
    by (simp add: set_background_def)
  with propagate_term_no_walk [OF assms] show ?thesis by blast
qed

theorem unreachable_root_drops_annotations_witness:
  "root_of apart_graph ''c'' = Inr ''r'' \<and> ''r'' \<in> set (map fst (nodes apart_graph))
   \<and> (\<forall>p. \<not> walk (succs apart_graph) (''c'' # p @ [''r'']))
   \<and> propagate_term apart_graph (''c'', [''e1'', ''e2'']) = (apart_graph, None)
   \<and> map (\<lambda>(i, nd). (i, node_background nd))
        (nodes (fst (set_background apart_graph [(''e1'', ''c''), (''e2'', ''c'')])))
       = [(''c'', Some {}), (''r'', Some {})]
   \<and> snd (set_background apart_graph [(''e1'', ''c''), (''e2'', ''c'')]) = None"
proof -
  have 1: "root_of apart_graph ''c'' = Inr ''r''"
    by (simp add: root_of_def apart_graph_def new_node_def)
  have 2: "''r'' \<in> set (map fst (nodes apart_graph))"
    by (simp add: apart_graph_def)
  have 3: "\<forall>p. \<not> walk (succs apart_graph) (''c'' # p @ [''r''])"
    by (simp add: walk_Cons apart_graph_def)
  have 4: "set (map snd [(''e1'', ''c''), (''e2'', ''c'')]) = {''c''}"
    by simp
  from unreachable_root_drops_annotations [OF 1 2 3, of "[''e1'', ''e2'']"
      "[(''e1'', ''c''), (''e2'', ''c'')]"] 1 2 3 4
  show ?thesis
    by (simp add: apart_graph_def clean_background_def)
qed

end
